theory Spec2Isabelle
  imports Main "HOL-Library.Multiset"
begin

section \<open>Label OCR pipeline: extraction, variant expansion and the record store\<close>

text \<open>
  A shallow embedding of the core of \<^verbatim>\<open>ocr_gui.py\<close>: the OCR client
  (\<^verbatim>\<open>call_ocr_api\<close>), the part-number extractor
  (\<^verbatim>\<open>extract_part_numbers\<close>), the variant expansion and record
  assembly of \<^verbatim>\<open>process_image\<close>, and the table operations
  \<^verbatim>\<open>save_to_csv\<close> and \<^verbatim>\<open>deduplicate_csv\<close>.

  A Python string is modelled by the \<^typ>\<open>string\<close> of its UTF-8 bytes, the form in
  which the program writes it to the output table. Comparing strings, testing for the
  empty string, joining with a space, and finding, stripping or removing one of the ASCII
  characters \<open>0 - . / _\<close> are the same on the bytes as on the code points. The string
  methods that depend on the Unicode character database (\<^verbatim>\<open>upper\<close>,
  \<^verbatim>\<open>strip\<close>, \<^verbatim>\<open>split\<close>), the length in code points and the
  regular-expression search are not code of the repository: the functions that use them
  take them as a parameter, the record \<open>library\<close> below. Their definitions for ASCII
  text (code points below 128) are given first and form the instance
  \<open>ascii_library\<close>, on which concrete inputs are evaluated.
\<close>

subsection \<open>String methods on ASCII text\<close>


definition char_code :: "char \<Rightarrow> nat" where
  "char_code c = of_char c"

text \<open>\<^verbatim>\<open>str.isspace\<close> on ASCII: TAB, LF, VT, FF, CR, the separators
  0x1C to 0x1F, and the space. The same set is matched by \<^verbatim>\<open>\s\<close>.\<close>

definition isspace :: "char \<Rightarrow> bool" where
  "isspace c = ((9 \<le> char_code c \<and> char_code c \<le> 13) \<or> (28 \<le> char_code c \<and> char_code c \<le> 32))"

definition is_lower :: "char \<Rightarrow> bool" where
  "is_lower c = (97 \<le> char_code c \<and> char_code c \<le> 122)"

definition is_upper :: "char \<Rightarrow> bool" where
  "is_upper c = (65 \<le> char_code c \<and> char_code c \<le> 90)"

definition is_digit :: "char \<Rightarrow> bool" where
  "is_digit c = (48 \<le> char_code c \<and> char_code c \<le> 57)"

text \<open>The character class \<^verbatim>\<open>[a-zA-Z0-9]\<close>.\<close>

definition is_alnum :: "char \<Rightarrow> bool" where
  "is_alnum c = (is_lower c \<or> is_upper c \<or> is_digit c)"

text \<open>The character class \<^verbatim>\<open>[a-zA-Z0-9\-\.\/_]\<close>.\<close>

definition is_pn_char :: "char \<Rightarrow> bool" where
  "is_pn_char c = (is_alnum c \<or> c = CHR ''-'' \<or> c = CHR ''.'' \<or> c = CHR ''/'' \<or> c = CHR ''_'')"

text \<open>The class \<^verbatim>\<open>\w\<close>, which decides the word boundary \<^verbatim>\<open>\b\<close>.\<close>

definition is_word :: "char \<Rightarrow> bool" where
  "is_word c = (is_alnum c \<or> c = CHR ''_'')"

definition upper_char :: "char \<Rightarrow> char" where
  "upper_char c = (if is_lower c then char_of (char_code c - 32) else c)"

text \<open>\<^verbatim>\<open>str.upper\<close>, \<^verbatim>\<open>str.strip\<close> and \<^verbatim>\<open>str.split\<close>
  (without arguments).\<close>

definition upper :: "string \<Rightarrow> string" where
  "upper s = map upper_char s"

definition lstrip :: "string \<Rightarrow> string" where
  "lstrip s = dropWhile isspace s"

definition rstrip :: "string \<Rightarrow> string" where
  "rstrip s = rev (dropWhile isspace (rev s))"

definition strip :: "string \<Rightarrow> string" where
  "strip s = rstrip (lstrip s)"

fun split_ws :: "string \<Rightarrow> string \<Rightarrow> string list" where
  "split_ws cur [] = (if cur = [] then [] else [cur])"
| "split_ws cur (c # cs) =
     (if isspace c then (if cur = [] then split_ws [] cs else cur # split_ws [] cs)
      else split_ws (cur @ [c]) cs)"

definition split :: "string \<Rightarrow> string list" where
  "split s = split_ws [] s"

text \<open>\<^verbatim>\<open>' '.join(words)\<close>.\<close>

fun join_space :: "string list \<Rightarrow> string" where
  "join_space [] = []"
| "join_space [w] = w"
| "join_space (w # ws) = w @ CHR '' '' # join_space ws"

text \<open>\<^verbatim>\<open>s.startswith('0')\<close>, \<^verbatim>\<open>s.lstrip('0')\<close> and
  \<^verbatim>\<open>s.replace(char, '')\<close> for a single character.\<close>

definition startswith_zero :: "string \<Rightarrow> bool" where
  "startswith_zero s = (case s of [] \<Rightarrow> False | c # _ \<Rightarrow> c = CHR ''0'')"

definition lstrip_zero :: "string \<Rightarrow> string" where
  "lstrip_zero s = dropWhile (\<lambda>c. c = CHR ''0'') s"

definition replace_char :: "char \<Rightarrow> string \<Rightarrow> string" where
  "replace_char c s = filter (\<lambda>x. x \<noteq> c) s"

subsection \<open>Variant expansion (the block building \<^verbatim>\<open>pns_to_add\<close> in \<^verbatim>\<open>process_image\<close>)\<close>

definition special_chars :: string where
  "special_chars = ''-./_''"

text \<open>The loop \<^verbatim>\<open>for char in special_chars: cleaned_pn = cleaned_pn.replace(char, '')\<close>.\<close>

definition cleaned_pn :: "string \<Rightarrow> string" where
  "cleaned_pn part_number = foldl (\<lambda>s c. replace_char c s) part_number special_chars"

definition has_special :: "string \<Rightarrow> bool" where
  "has_special part_number = list_ex (\<lambda>c. c \<in> set part_number) special_chars"

text \<open>Rule 1: the leading-zero variant, appended to the variants collected so far.\<close>

definition add_stripped :: "string \<Rightarrow> string list \<Rightarrow> string list" where
  "add_stripped pn pns =
     (if startswith_zero pn then
        (let stripped_pn = lstrip_zero pn in
         if stripped_pn \<noteq> [] \<and> stripped_pn \<noteq> pn then pns @ [stripped_pn] else pns)
      else pns)"

text \<open>Rule 2: the punctuation-free variant, and with it its own leading-zero variant.\<close>

definition add_cleaned :: "string \<Rightarrow> string list \<Rightarrow> string list" where
  "add_cleaned part_number pns =
     (if has_special part_number then
        (let cleaned = cleaned_pn part_number in
         if cleaned \<noteq> [] \<and> cleaned \<noteq> part_number
         then add_stripped cleaned (pns @ [cleaned])
         else pns)
      else pns)"

definition pns_to_add :: "string \<Rightarrow> string list" where
  "pns_to_add part_number = add_cleaned part_number (add_stripped part_number [part_number])"

subsection \<open>The pattern of the extractor on ASCII text\<close>

text \<open>
  The pattern is \<^verbatim>\<open>\b<brand_code>\s*([a-zA-Z0-9][a-zA-Z0-9\-\.\/_]+)\<close>, matched
  with \<^verbatim>\<open>re.IGNORECASE\<close>; the brand code is escaped, so it matches literally.
  Both repetitions are greedy and nothing follows the group, and giving back white space
  never helps (the group cannot start with white space), so a match at a position, if
  there is one, is: a word boundary, the brand code up to case, all the white space that
  follows, one alphanumeric character and the longest non-empty run of part-number
  characters after it.
\<close>

fun match_literal :: "string \<Rightarrow> string \<Rightarrow> string option" where
  "match_literal [] s = Some s"
| "match_literal (p # ps) [] = None"
| "match_literal (p # ps) (c # cs) =
     (if upper_char p = upper_char c then match_literal ps cs else None)"

text \<open>\<^verbatim>\<open>\b\<close>: exactly one of the characters before and after the position is a
  word character; the outside of the text counts as a non-word character.\<close>

definition word_boundary :: "char option \<Rightarrow> string \<Rightarrow> bool" where
  "word_boundary prev s =
     ((case prev of None \<Rightarrow> False | Some c \<Rightarrow> is_word c) \<noteq>
      (case s of [] \<Rightarrow> False | c # _ \<Rightarrow> is_word c))"

text \<open>A match at the start of \<open>s\<close>, the character before it being \<open>prev\<close>: the captured
  group and the number of characters the whole match covers.\<close>

definition match_at :: "string \<Rightarrow> char option \<Rightarrow> string \<Rightarrow> (string \<times> nat) option" where
  "match_at brand_code prev s =
     (if word_boundary prev s then
        (case match_literal brand_code s of
           None \<Rightarrow> None
         | Some rest \<Rightarrow>
             (case dropWhile isspace rest of
                [] \<Rightarrow> None
              | c # cs \<Rightarrow>
                  if is_alnum c \<and> takeWhile is_pn_char cs \<noteq> []
                  then Some (c # takeWhile is_pn_char cs,
                             length brand_code + length (takeWhile isspace rest)
                               + Suc (length (takeWhile is_pn_char cs)))
                  else None))
      else None)"

text \<open>\<^verbatim>\<open>re.findall\<close>: the text is scanned from left to right; after a match the
  scan resumes at the end of the match (\<open>skip\<close> counts the characters of the current
  match that are still to be passed), otherwise one character further.\<close>

fun findall_from :: "string \<Rightarrow> char option \<Rightarrow> nat \<Rightarrow> string \<Rightarrow> string list" where
  "findall_from brand_code prev skip [] = []"
| "findall_from brand_code prev (Suc k) (c # cs) = findall_from brand_code (Some c) k cs"
| "findall_from brand_code prev 0 (c # cs) =
     (case match_at brand_code prev (c # cs) of
        None \<Rightarrow> findall_from brand_code (Some c) 0 cs
      | Some (captured, n) \<Rightarrow> captured # findall_from brand_code (Some c) (n - 1) cs)"

definition findall :: "string \<Rightarrow> string \<Rightarrow> string list" where
  "findall brand_code text = findall_from brand_code None 0 text"


subsection \<open>The string library\<close>

text \<open>
  The library functions the source calls, as functions on strings:
  \<^verbatim>\<open>s.upper()\<close>, \<^verbatim>\<open>s.strip()\<close>, \<^verbatim>\<open>s.split()\<close>,
  \<^verbatim>\<open>len(s)\<close>, and, for a brand code and a text,
  \<^verbatim>\<open>re.findall(pattern, text, re.IGNORECASE)\<close> with the pattern that
  \<^verbatim>\<open>extract_part_numbers\<close> builds from the brand code.
\<close>

record library =
  str_upper :: "string \<Rightarrow> string"
  str_strip :: "string \<Rightarrow> string"
  str_split :: "string \<Rightarrow> string list"
  str_len :: "string \<Rightarrow> nat"
  re_findall :: "string \<Rightarrow> string \<Rightarrow> string list"

text \<open>The library on ASCII text.\<close>

definition ascii_library :: library where
  "ascii_library =
     \<lparr>str_upper = upper, str_strip = strip, str_split = split, str_len = length,
      re_findall = findall\<rparr>"

text \<open>A library agrees with the ASCII one on ASCII text when it gives the same results on
  strings of code points below 128, as Python's does.\<close>

definition is_ascii :: "string \<Rightarrow> bool" where
  "is_ascii s = list_all (\<lambda>c. char_code c < 128) s"

definition agrees_on_ascii :: "library \<Rightarrow> bool" where
  "agrees_on_ascii L =
     ((\<forall>s. is_ascii s \<longrightarrow>
          str_upper L s = upper s \<and> str_strip L s = strip s
        \<and> str_split L s = split s \<and> str_len L s = length s)
      \<and> (\<forall>b t. is_ascii b \<and> is_ascii t \<longrightarrow> re_findall L b t = findall b t))"

subsection \<open>The part-number extractor (\<^verbatim>\<open>extract_part_numbers\<close>)\<close>

text \<open>The first loop: brand codes are trimmed and uppercased, empty ones are dropped,
  and only the first occurrence of each is kept.\<close>

fun unique_loop :: "library \<Rightarrow> string list \<Rightarrow> string list \<Rightarrow> string set \<Rightarrow> string list" where
  "unique_loop L [] unique seen = unique"
| "unique_loop L (bc # bcs) unique seen =
     (let bc_upper = str_upper L (str_strip L bc) in
      if bc_upper \<noteq> [] \<and> bc_upper \<notin> seen
      then unique_loop L bcs (unique @ [bc_upper]) (insert bc_upper seen)
      else unique_loop L bcs unique seen)"

definition unique_brand_codes :: "library \<Rightarrow> string list \<Rightarrow> string list" where
  "unique_brand_codes L brand_codes = unique_loop L brand_codes [] {}"

text \<open>The inner loop over the matches of one brand code.\<close>

fun matches_loop :: "library \<Rightarrow> string list \<Rightarrow> string \<Rightarrow> string list \<Rightarrow> (string \<times> string) list" where
  "matches_loop L unique brand_code [] = []"
| "matches_loop L unique brand_code (m # ms) =
     (let part_number = str_upper L (str_strip L m) in
      if part_number \<noteq> [] \<and> part_number \<notin> set unique
      then (if 4 \<le> str_len L part_number
            then (brand_code, part_number) # matches_loop L unique brand_code ms
            else matches_loop L unique brand_code ms)
      else matches_loop L unique brand_code ms)"

text \<open>The outer loop over the unique brand codes.\<close>

fun brands_loop :: "library \<Rightarrow> string list \<Rightarrow> string \<Rightarrow> string list \<Rightarrow> (string \<times> string) list" where
  "brands_loop L unique text [] = []"
| "brands_loop L unique text (brand_code # rest) =
     matches_loop L unique brand_code (re_findall L brand_code text)
       @ brands_loop L unique text rest"

definition extract_part_numbers :: "library \<Rightarrow> string list \<Rightarrow> string \<Rightarrow> (string \<times> string) list" where
  "extract_part_numbers L brand_codes brand_part_text =
     (let unique = unique_brand_codes L brand_codes in
      if unique = [] \<or> brand_part_text = [] then []
      else brands_loop L unique
             (join_space (str_split L (str_strip L brand_part_text))) unique)"

subsection \<open>The OCR client (\<^verbatim>\<open>call_ocr_api\<close>)\<close>

text \<open>
  The outcome of \<^verbatim>\<open>requests.post\<close> is either a
  \<^verbatim>\<open>RequestException\<close> (connection failure, timeout) or a reply with a status
  code and a JSON object as body. Of the object, the fields \<^verbatim>\<open>code\<close> and
  \<^verbatim>\<open>data\<close> are read (\<open>None\<close> where a field is missing); the data are a string
  or a list of fragments, each with an optional text and an optional box, a list of
  corner points \<^verbatim>\<open>[x, y]\<close>.
\<close>

datatype ocr_item = OcrItem (item_text: "string option") (item_box: "int list list option")

datatype ocr_data = DataText string | DataItems "ocr_item list"

record ocr_json =
  code :: "int option"
  data :: "ocr_data option"

datatype http_outcome = RequestFailed | Response nat ocr_json

text \<open>Exceptions that \<^verbatim>\<open>call_ocr_api\<close> does not catch.\<close>

datatype error = AttributeError | IndexError

datatype ocr_result = Text string | Lines "string list"

text \<open>\<^verbatim>\<open>'' if return_text else []\<close>.\<close>

definition empty_result :: "bool \<Rightarrow> ocr_result" where
  "empty_result return_text = (if return_text then Text [] else Lines [])"

text \<open>\<^verbatim>\<open>Response.raise_for_status\<close> of the \<^verbatim>\<open>requests\<close> library raises
  \<^verbatim>\<open>HTTPError\<close>, a \<^verbatim>\<open>RequestException\<close>, for the client-error and
  server-error statuses 400 to 599, and for no other status.\<close>

definition raise_for_status :: "nat \<Rightarrow> bool" where
  "raise_for_status status_code = (400 \<le> status_code \<and> status_code < 600)"

text \<open>The successful statuses 200 to 299, for comparison.\<close>

definition status_2xx :: "nat \<Rightarrow> bool" where
  "status_2xx status_code = (200 \<le> status_code \<and> status_code < 300)"

text \<open>\<^verbatim>\<open>box = item.get('box', [[0, 0]]); y_pos = box[0][1] if box else 0\<close>.\<close>

definition y_pos :: "ocr_item \<Rightarrow> error + int" where
  "y_pos item =
     (case item_box item of
        None \<Rightarrow> Inr 0
      | Some [] \<Rightarrow> Inr 0
      | Some (point # _) \<Rightarrow>
          (case point of x # y # _ \<Rightarrow> Inr y | _ \<Rightarrow> Inl IndexError))"

text \<open>\<^verbatim>\<open>item.get('text', '').strip()\<close>.\<close>

definition stripped_text :: "library \<Rightarrow> ocr_item \<Rightarrow> string" where
  "stripped_text L item = str_strip L (case item_text item of None \<Rightarrow> [] | Some t \<Rightarrow> t)"

text \<open>The loop that collects \<^verbatim>\<open>texts\<close>, the pairs \<^verbatim>\<open>(y_pos, text)\<close> in
  detection order.\<close>

fun collect_texts :: "library \<Rightarrow> ocr_item list \<Rightarrow> error + (int \<times> string) list" where
  "collect_texts L [] = Inr []"
| "collect_texts L (item # items) =
     (case y_pos item of
        Inl e \<Rightarrow> Inl e
      | Inr y \<Rightarrow>
          (case collect_texts L items of
             Inl e \<Rightarrow> Inl e
           | Inr texts \<Rightarrow> Inr ((y, stripped_text L item) # texts)))"

text \<open>\<^verbatim>\<open>texts.sort(key=lambda x: x[0]); return [t[1] for t in texts if t[1]]\<close>.
  Python's sort is stable, as is \<^const>\<open>sort_key\<close>.\<close>

definition sorted_lines :: "(int \<times> string) list \<Rightarrow> string list" where
  "sorted_lines texts = map snd (filter (\<lambda>t. snd t \<noteq> []) (sort_key fst texts))"

text \<open>Iterating over a non-empty string yields characters, which have no
  \<^verbatim>\<open>get\<close>.\<close>

definition lines_of_data :: "library \<Rightarrow> ocr_data \<Rightarrow> error + ocr_result" where
  "lines_of_data L d =
     (case d of
        DataItems items \<Rightarrow>
          (case collect_texts L items of
             Inl e \<Rightarrow> Inl e
           | Inr texts \<Rightarrow> Inr (Lines (sorted_lines texts)))
      | DataText s \<Rightarrow> if s = [] then Inr (Lines []) else Inl AttributeError)"

definition call_ocr_api :: "library \<Rightarrow> http_outcome \<Rightarrow> bool \<Rightarrow> error + ocr_result" where
  "call_ocr_api L outcome return_text =
     (case outcome of
        RequestFailed \<Rightarrow> Inr (empty_result return_text)
      | Response status_code result \<Rightarrow>
          if raise_for_status status_code then Inr (empty_result return_text)
          else if code result = Some 100 then
            (let d = (case data result of None \<Rightarrow> DataItems [] | Some d \<Rightarrow> d) in
             if return_text
             then Inr (Text (case d of DataText s \<Rightarrow> s | DataItems _ \<Rightarrow> []))
             else lines_of_data L d)
          else if code result = Some 101 then Inr (empty_result return_text)
          else Inr (empty_result return_text))"

subsection \<open>Record assembly (\<^verbatim>\<open>process_image\<close>)\<close>

type_synonym record_key = "string \<times> string \<times> string \<times> string \<times> string \<times> string"

type_synonym output_record = "string \<times> string \<times> string \<times> string \<times> string \<times> string \<times> string"

definition universal_brand_of :: "output_record \<Rightarrow> string" where
  "universal_brand_of r = (case r of (m, c, e, u, b, p, s) \<Rightarrow> u)"

definition brand_code_of :: "output_record \<Rightarrow> string" where
  "brand_code_of r = (case r of (m, c, e, u, b, p, s) \<Rightarrow> b)"

definition part_number_of :: "output_record \<Rightarrow> string" where
  "part_number_of r = (case r of (m, c, e, u, b, p, s) \<Rightarrow> p)"

text \<open>\<^verbatim>\<open>record + (source_file,)\<close> and the first six fields of a record.\<close>

definition with_source :: "record_key \<Rightarrow> string \<Rightarrow> output_record" where
  "with_source k source_file = (case k of (m, c, e, u, b, p) \<Rightarrow> (m, c, e, u, b, p, source_file))"

definition key_of :: "output_record \<Rightarrow> record_key" where
  "key_of r = (case r of (m, c, e, u, b, p, s) \<Rightarrow> (m, c, e, u, b, p))"

text \<open>The state of the assembly loop: the records collected, the keys already seen in
  this image, and the brand codes for which the missing-mapping warning was logged.\<close>

record assembly =
  new_records :: "output_record list"
  seen_in_image :: "record_key set"
  warnings :: "string list"

text \<open>The fields that are the same for every record of one image.\<close>

record image_fields =
  main_brand_code :: string
  convert_code :: string
  english_name :: string
  source_file :: string

text \<open>The body of \<^verbatim>\<open>for pn in pns_to_add\<close>.\<close>

definition add_variant :: "image_fields \<Rightarrow> string \<Rightarrow> string \<Rightarrow> assembly \<Rightarrow> string \<Rightarrow> assembly" where
  "add_variant f universal_brand brand_code st pn =
     (let record = (main_brand_code f, convert_code f, english_name f, universal_brand, brand_code, pn) in
      if record \<notin> seen_in_image st
      then st\<lparr>new_records := new_records st @ [with_source record (source_file f)],
              seen_in_image := insert record (seen_in_image st)\<rparr>
      else st)"

text \<open>The body of \<^verbatim>\<open>for brand_code, part_number in part_number_pairs\<close>.\<close>

definition add_pair :: "(string \<rightharpoonup> string) \<Rightarrow> image_fields \<Rightarrow> assembly \<Rightarrow> string \<times> string \<Rightarrow> assembly" where
  "add_pair brand_mapping f st pair =
     (case pair of (brand_code, part_number) \<Rightarrow>
        (case brand_mapping brand_code of
           None \<Rightarrow>
             foldl (add_variant f brand_code brand_code)
               (st\<lparr>warnings := warnings st @ [brand_code]\<rparr>) (pns_to_add part_number)
         | Some universal_brand \<Rightarrow>
             foldl (add_variant f universal_brand brand_code) st (pns_to_add part_number)))"

definition assemble :: "(string \<rightharpoonup> string) \<Rightarrow> image_fields \<Rightarrow> (string \<times> string) list \<Rightarrow> assembly" where
  "assemble brand_mapping f part_number_pairs =
     foldl (add_pair brand_mapping f)
       \<lparr>new_records = [], seen_in_image = {}, warnings = []\<rparr> part_number_pairs"

text \<open>\<^verbatim>\<open>lines[0] if lines else ''\<close>, trimmed and uppercased.\<close>

definition single_value :: "library \<Rightarrow> string list \<Rightarrow> string" where
  "single_value L lines = str_upper L (str_strip L (case lines of [] \<Rightarrow> [] | l # _ \<Rightarrow> l))"

text \<open>What the OCR client returned for the regions of one image.\<close>

record region_texts =
  main_brand_lines :: "string list"
  convert_lines :: "string list"
  english_lines :: "string list"
  brand_code_lines :: "string list"
  brand_part_text :: string

text \<open>\<^verbatim>\<open>process_image\<close> from the OCR results to the assembled records.\<close>

definition process_image :: "library \<Rightarrow> (string \<rightharpoonup> string) \<Rightarrow> string \<Rightarrow> region_texts \<Rightarrow> assembly" where
  "process_image L brand_mapping file_name ocr =
     assemble brand_mapping
       \<lparr>main_brand_code = single_value L (main_brand_lines ocr),
        convert_code = single_value L (convert_lines ocr),
        english_name = single_value L (english_lines ocr),
        source_file = file_name\<rparr>
       (extract_part_numbers L (brand_code_lines ocr) (brand_part_text ocr))"

subsection \<open>The output table (\<^verbatim>\<open>save_to_csv\<close>, \<^verbatim>\<open>deduplicate_csv\<close>)\<close>

text \<open>
  The table is modelled by the rows that \<^verbatim>\<open>csv.reader\<close> yields for the file,
  each a list of fields; \<open>None\<close> is the file that does not exist. A blank line is
  the row \<open>[]\<close>. Writing rows with \<^verbatim>\<open>csv.writer\<close> and reading them back is
  taken to give the same rows, and a file that exists is taken to end with a line
  terminator, as every file does that was written through \<^verbatim>\<open>csv.writer\<close>
  (appended to a file that ends within a row, the first record would continue that row).
\<close>

type_synonym row = "string list"

type_synonym csv_file = "row list option"

definition header_row :: row where
  "header_row =
     [[CHR 0xE4, CHR 0xB8, CHR 0xBB, CHR 0xE5, CHR 0x93, CHR 0x81, CHR 0xE7, CHR 0x89, CHR 0x8C,
       CHR 0xE7, CHR 0xBC, CHR 0x96, CHR 0xE7, CHR 0xA0, CHR 0x81],
      [CHR 0xE8, CHR 0xBD, CHR 0xAC, CHR 0xE6, CHR 0x8D, CHR 0xA2, CHR 0xE7, CHR 0xA0, CHR 0x81],
      [CHR 0xE8, CHR 0x8B, CHR 0xB1, CHR 0xE6, CHR 0x96, CHR 0x87, CHR 0xE5, CHR 0x90, CHR 0x8D,
       CHR 0xE7, CHR 0xA7, CHR 0xB0],
      [CHR 0xE9, CHR 0x80, CHR 0x9A, CHR 0xE7, CHR 0x94, CHR 0xA8, CHR 0xE5, CHR 0x93, CHR 0x81,
       CHR 0xE7, CHR 0x89, CHR 0x8C],
      [CHR 0xE5, CHR 0x93, CHR 0x81, CHR 0xE7, CHR 0x89, CHR 0x8C, CHR 0xE7, CHR 0xBC, CHR 0x96,
       CHR 0xE7, CHR 0xA0, CHR 0x81],
      [CHR 0xE9, CHR 0x80, CHR 0x9A, CHR 0xE7, CHR 0x94, CHR 0xA8, CHR 0xE7, CHR 0xBC, CHR 0x96,
       CHR 0xE7, CHR 0xA0, CHR 0x81],
      [CHR 0xE6, CHR 0x9D, CHR 0xA5, CHR 0xE6, CHR 0xBA, CHR 0x90, CHR 0xE6, CHR 0x96, CHR 0x87,
       CHR 0xE4, CHR 0xBB, CHR 0xB6]]"

definition row_of :: "output_record \<Rightarrow> row" where
  "row_of r = (case r of (m, c, e, u, b, p, s) \<Rightarrow> [m, c, e, u, b, p, s])"

definition save_to_csv :: "csv_file \<Rightarrow> output_record list \<Rightarrow> csv_file" where
  "save_to_csv file records =
     (case file of
        None \<Rightarrow> Some (header_row # map row_of records)
      | Some content \<Rightarrow> Some (content @ map row_of records))"

text \<open>The loop \<^verbatim>\<open>for row in rows[1:]\<close> with its set \<^verbatim>\<open>seen\<close>.\<close>

fun dedup_loop :: "row list \<Rightarrow> row set \<Rightarrow> row list" where
  "dedup_loop [] seen = []"
| "dedup_loop (row # rows) seen =
     (if 6 \<le> length row then
        (let key = take 6 row in
         if key \<notin> seen then row # dedup_loop rows (insert key seen)
         else dedup_loop rows seen)
      else dedup_loop rows seen)"

text \<open>The rows read: the first row only if it is not empty
  (\<^verbatim>\<open>if header: rows.append(header)\<close>), then all the others.\<close>

definition read_rows :: "row list \<Rightarrow> row list" where
  "read_rows content =
     (case content of
        [] \<Rightarrow> []
      | header # rest \<Rightarrow> (if header \<noteq> [] then [header] else []) @ rest)"

definition deduplicate_csv :: "csv_file \<Rightarrow> csv_file" where
  "deduplicate_csv file =
     (case file of
        None \<Rightarrow> None
      | Some content \<Rightarrow>
          (case read_rows content of
             [] \<Rightarrow> Some content
           | [r] \<Rightarrow> Some content
           | r # rows \<Rightarrow>
               (let unique_rows = r # dedup_loop rows {};
                    removed_count = length (r # rows) - length unique_rows in
                if removed_count = 0 then Some content else Some unique_rows)))"



section \<open>Properties\<close>

subsection \<open>Variant expansion\<close>

lemma cleaned_pn_filter: "cleaned_pn p = filter (\<lambda>x. x \<notin> set special_chars) p"
  by (simp add: cleaned_pn_def special_chars_def replace_char_def)

lemma has_special_iff: "has_special p \<longleftrightarrow> (\<exists>c \<in> set p. c \<in> set special_chars)"
  by (auto simp: has_special_def special_chars_def)

lemma lstrip_zero_set: "set (lstrip_zero s) \<subseteq> set s"
  by (simp add: lstrip_zero_def set_dropWhileD subsetI)

lemma special_in_lstrip_zero:
  "c \<in> set s \<Longrightarrow> c \<in> set special_chars \<Longrightarrow> c \<in> set (lstrip_zero s)"
  unfolding lstrip_zero_def by (induction s) (auto simp: special_chars_def)

lemma lstrip_zero_not_zero: "\<not> startswith_zero (lstrip_zero s)"
  unfolding lstrip_zero_def startswith_zero_def
  by (induction s) (auto split: list.splits)

lemma cleaned_startswith_zero: "startswith_zero p \<Longrightarrow> startswith_zero (cleaned_pn p)"
  by (cases p) (auto simp: cleaned_pn_filter startswith_zero_def special_chars_def)

lemma cleaned_no_special: "c \<in> set (cleaned_pn p) \<Longrightarrow> c \<notin> set special_chars"
  by (simp add: cleaned_pn_filter)

lemma hd_pns_to_add: "hd (pns_to_add P) = P"
  by (simp add: pns_to_add_def add_cleaned_def add_stripped_def Let_def)

lemma pns_to_add_nonempty: "pns_to_add P \<noteq> []"
  by (simp add: pns_to_add_def add_cleaned_def add_stripped_def Let_def)

lemma pns_to_add_first: "\<exists>rest. pns_to_add P = P # rest"
  using hd_pns_to_add [of P] pns_to_add_nonempty [of P] by (cases "pns_to_add P") auto

text \<open>
  C2. The claim says that for \<open>0AB-12\<close> rule 1 does not fire. In the code rule 1 tests
  only \<^verbatim>\<open>part_number.startswith('0')\<close>, so it fires whatever follows the zero:
  the variant \<open>AB-12\<close>, the input without its leading zero, is produced.
\<close>

theorem zero_then_letter_counterexample:
  "lstrip_zero ''0AB-12'' = ''AB-12'' \<and> ''AB-12'' \<in> set (pns_to_add ''0AB-12'')"
  by code_simp

text \<open>
  C2, as amended: the expansion of \<open>0AB-12\<close> is the input, the input without its
  leading zero, the input without punctuation, and the latter without its leading zero,
  in this order.
\<close>

theorem variants_of_0AB_12:
  "pns_to_add ''0AB-12'' = [''0AB-12'', ''AB-12'', ''0AB12'', ''AB12'']"
  by code_simp

text \<open>
  C4. For every part number \<open>P\<close>, the variant sequence starts with \<open>P\<close> and has no two
  equal elements. The code compares a new variant only with the value it was derived
  from; the variants differ all the same, since a punctuation-free variant has no
  punctuation and a zero-stripped variant no leading zero.
\<close>

theorem pns_to_add_head_distinct: "hd (pns_to_add P) = P \<and> distinct (pns_to_add P)"
proof
  show "hd (pns_to_add P) = P"
    by (rule hd_pns_to_add)
  show "distinct (pns_to_add P)"
  proof -
    have a: "has_special P \<Longrightarrow> startswith_zero P \<Longrightarrow> cleaned_pn P \<noteq> lstrip_zero P"
      using cleaned_startswith_zero lstrip_zero_not_zero by metis
    have b: "has_special P \<Longrightarrow> lstrip_zero (cleaned_pn P) \<noteq> P"
      using cleaned_no_special lstrip_zero_set has_special_iff by (metis subsetD)
    have c: "has_special P \<Longrightarrow> lstrip_zero (cleaned_pn P) \<noteq> lstrip_zero P"
      using cleaned_no_special lstrip_zero_set has_special_iff special_in_lstrip_zero
      by (metis subsetD)
    show ?thesis
      using a b c by (auto simp: pns_to_add_def add_cleaned_def add_stripped_def Let_def)
  qed
qed

theorem pns_to_add_head_distinct_witness:
  "hd (pns_to_add ''0099-A'') = ''0099-A'' \<and> distinct (pns_to_add ''0099-A'')
   \<and> pns_to_add ''0099-A'' = [''0099-A'', ''99-A'', ''0099A'', ''99A'']"
  using pns_to_add_head_distinct [of "''0099-A''"] by code_simp

text \<open>
  C10. For every part number \<open>P\<close>, the expansion has at most four variants, each of them
  one of: \<open>P\<close>, \<open>P\<close> without leading zeros, \<open>P\<close> without the characters \<open>- . / _\<close>, and
  the latter without leading zeros.
\<close>

theorem pns_to_add_at_most_four:
  "length (pns_to_add P) \<le> 4 \<and>
   set (pns_to_add P) \<subseteq> {P, lstrip_zero P, cleaned_pn P, lstrip_zero (cleaned_pn P)}"
proof
  show "length (pns_to_add P) \<le> 4"
    by (simp add: pns_to_add_def add_cleaned_def add_stripped_def Let_def)
  show "set (pns_to_add P) \<subseteq> {P, lstrip_zero P, cleaned_pn P, lstrip_zero (cleaned_pn P)}"
    by (auto simp: pns_to_add_def add_cleaned_def add_stripped_def Let_def)
qed

theorem pns_to_add_at_most_four_witness:
  "length (pns_to_add ''00-7.8'') \<le> 4 \<and>
   set (pns_to_add ''00-7.8'') \<subseteq> {''00-7.8'', ''-7.8'', ''0078'', ''78''}"
  using pns_to_add_at_most_four [of "''00-7.8''"] by code_simp


subsection \<open>The part-number extractor\<close>

lemma upper_char_idem: "upper_char (upper_char c) = upper_char c"
proof (cases "is_lower c")
  case True
  then have r: "97 \<le> char_code c" "char_code c \<le> 122"
    by (simp_all add: is_lower_def)
  then have "(char_code c - 32) mod 256 = char_code c - 32"
    by simp
  then have "char_code (char_of (char_code c - 32)) = char_code c - 32"
    by (simp add: char_code_def)
  with r have "\<not> is_lower (char_of (char_code c - 32))"
    by (simp add: is_lower_def)
  with True show ?thesis
    by (simp add: upper_char_def)
next
  case False
  then show ?thesis
    by (simp add: upper_char_def)
qed

lemma upper_idem: "upper (upper s) = upper s"
  by (simp add: upper_def upper_char_idem)

lemma length_upper: "length (upper s) = length s"
  by (simp add: upper_def)

lemma ascii_upper_idem:
  "\<forall>s. str_upper ascii_library (str_upper ascii_library s) = str_upper ascii_library s"
  by (simp add: ascii_library_def upper_idem)

lemma set_unique_loop:
  "seen = set unique \<Longrightarrow>
   set (unique_loop L bcs unique seen)
     = set unique \<union> ((\<lambda>b. str_upper L (str_strip L b)) ` set bcs - {[]})"
proof (induction bcs arbitrary: unique seen)
  case Nil
  then show ?case by simp
next
  case (Cons bc bcs)
  let ?u = "str_upper L (str_strip L bc)"
  show ?case
  proof (cases "?u \<noteq> [] \<and> ?u \<notin> seen")
    case True
    have "insert ?u seen = set (unique @ [?u])"
      using Cons.prems by simp
    from Cons.IH [OF this] True show ?thesis
      by (auto simp: Let_def)
  next
    case False
    from Cons.IH [OF Cons.prems] False Cons.prems show ?thesis
      by (auto simp: Let_def)
  qed
qed

lemma set_unique_brand_codes:
  "set (unique_brand_codes L B) = (\<lambda>b. str_upper L (str_strip L b)) ` set B - {[]}"
  by (simp add: unique_brand_codes_def set_unique_loop)

lemma matches_loop_member:
  "(bc, pn) \<in> set (matches_loop L unique brand_code ms) \<Longrightarrow>
   pn \<noteq> [] \<and> pn \<notin> set unique \<and> 4 \<le> str_len L pn
   \<and> (\<exists>m. pn = str_upper L (str_strip L m))"
  by (induction ms) (auto simp: Let_def split: if_splits)

lemma brands_loop_member:
  "(bc, pn) \<in> set (brands_loop L unique text bcs) \<Longrightarrow>
   pn \<noteq> [] \<and> pn \<notin> set unique \<and> 4 \<le> str_len L pn
   \<and> (\<exists>m. pn = str_upper L (str_strip L m))"
  by (induction bcs) (auto dest: matches_loop_member)

text \<open>
  C1. For every list of brand codes \<open>B\<close> and every text \<open>T\<close>, no pair returned by the
  extractor has a part number that, uppercased, is a member of the normalised brand
  codes of \<open>B\<close> (the list the code builds, and equally the set of the trimmed and
  uppercased members of \<open>B\<close>), and none has a part number shorter than four characters.
  This holds with any string library whose \<^verbatim>\<open>upper\<close> leaves its own results
  unchanged, as Python's does on every string: it maps each code point by itself, to
  code points it maps to themselves.
\<close>

theorem extract_rejects_brand_codes_and_short:
  assumes "\<forall>s. str_upper L (str_upper L s) = str_upper L s"
    and "(bc, pn) \<in> set (extract_part_numbers L B T)"
  shows "str_upper L pn \<notin> set (unique_brand_codes L B)
       \<and> str_upper L pn \<notin> (\<lambda>b. str_upper L (str_strip L b)) ` set B
       \<and> 4 \<le> str_len L pn"
proof -
  from assms(2) have "(bc, pn) \<in> set (brands_loop L (unique_brand_codes L B)
      (join_space (str_split L (str_strip L T))) (unique_brand_codes L B))"
    by (simp add: extract_part_numbers_def Let_def split: if_splits)
  then have n: "pn \<noteq> []" and m: "pn \<notin> set (unique_brand_codes L B)"
    and l: "4 \<le> str_len L pn" and u: "\<exists>m. pn = str_upper L (str_strip L m)"
    using brands_loop_member by blast+
  from u assms(1) have up: "str_upper L pn = pn"
    by auto
  from n m have "pn \<notin> (\<lambda>b. str_upper L (str_strip L b)) ` set B"
    by (simp add: set_unique_brand_codes)
  with m l up show ?thesis by simp
qed

theorem extract_rejects_brand_codes_and_short_witness:
  "(\<forall>s. str_upper ascii_library (str_upper ascii_library s) = str_upper ascii_library s)
   \<and> (''ZED'', ''AB1234'')
       \<in> set (extract_part_numbers ascii_library [''acme'', ''ZED''] ''ZED ACME ZED AB1234'')
   \<and> str_upper ascii_library ''AB1234'' \<notin> set (unique_brand_codes ascii_library [''acme'', ''ZED''])
   \<and> str_upper ascii_library ''AB1234''
       \<notin> (\<lambda>b. str_upper ascii_library (str_strip ascii_library b)) ` set [''acme'', ''ZED'']
   \<and> 4 \<le> str_len ascii_library ''AB1234''"
proof -
  have h: "(''ZED'', ''AB1234'')
      \<in> set (extract_part_numbers ascii_library [''acme'', ''ZED''] ''ZED ACME ZED AB1234'')"
    by code_simp
  show ?thesis
    using ascii_upper_idem h
      extract_rejects_brand_codes_and_short [OF ascii_upper_idem h]
    by (intro conjI) simp_all
qed

text \<open>
  C8. With the brand codes \<open>ACME\<close> and \<open>ZED\<close> and the text
  \<open>ACME AB1234 foo ZED XY99 bar\<close>, the extractor returns exactly the pairs
  \<open>(ACME, AB1234)\<close> and \<open>(ZED, XY99)\<close>, in this order. The input is ASCII text and
  is evaluated with the ASCII library.
\<close>

theorem extract_acme_zed:
  "extract_part_numbers ascii_library [''ACME'', ''ZED''] ''ACME AB1234 foo ZED XY99 bar''
     = [(''ACME'', ''AB1234''), (''ZED'', ''XY99'')]"
  by code_simp

text \<open>The same pairs are returned with every string library that agrees with the ASCII
  one on ASCII text.\<close>

lemma agrees_ascii_library: "agrees_on_ascii ascii_library"
  by (simp add: agrees_on_ascii_def ascii_library_def)

lemma acme_zed_with_any_library:
  assumes "agrees_on_ascii L"
  shows "extract_part_numbers L [''ACME'', ''ZED''] ''ACME AB1234 foo ZED XY99 bar''
     = [(''ACME'', ''AB1234''), (''ZED'', ''XY99'')]"
proof -
  let ?T = "''ACME AB1234 foo ZED XY99 bar''"
  have up: "\<And>s. is_ascii s \<Longrightarrow> str_upper L s = upper s"
    and st: "\<And>s. is_ascii s \<Longrightarrow> str_strip L s = strip s"
    and sp: "\<And>s. is_ascii s \<Longrightarrow> str_split L s = split s"
    and ln: "\<And>s. is_ascii s \<Longrightarrow> str_len L s = length s"
    and fa: "\<And>b t. is_ascii b \<Longrightarrow> is_ascii t \<Longrightarrow> re_findall L b t = findall b t"
    using assms by (auto simp: agrees_on_ascii_def)
  have a: "is_ascii ''ACME''" "is_ascii ''ZED''" "is_ascii ?T" "is_ascii ''AB1234''"
    "is_ascii ''XY99''"
    by code_simp+
  have e: "strip ''ACME'' = ''ACME''" "upper ''ACME'' = ''ACME''"
    "strip ''ZED'' = ''ZED''" "upper ''ZED'' = ''ZED''"
    "strip ''AB1234'' = ''AB1234''" "upper ''AB1234'' = ''AB1234''"
    "strip ''XY99'' = ''XY99''" "upper ''XY99'' = ''XY99''"
    "strip ?T = ?T" "join_space (split ?T) = ?T"
    "findall ''ACME'' ?T = [''AB1234'']" "findall ''ZED'' ?T = [''XY99'']"
    by code_simp+
  show ?thesis
    by (simp add: extract_part_numbers_def unique_brand_codes_def Let_def up st sp ln fa a e)
qed

subsection \<open>The OCR client\<close>

lemma collect_texts_Inr:
  "collect_texts L items = Inr texts \<Longrightarrow>
   map snd texts = map (stripped_text L) items \<and> map y_pos items = map (\<lambda>t. Inr (fst t)) texts"
  by (induction items arbitrary: texts) (auto split: sum.splits)

lemma sorted_lines_stable:
  "filter (\<lambda>t. fst t = y) (filter (\<lambda>t. snd t \<noteq> []) (sort_key fst texts))
     = filter (\<lambda>t. fst t = y) (filter (\<lambda>t. snd t \<noteq> []) (texts :: (int \<times> string) list))"
proof -
  have "filter (\<lambda>t. fst t = y) (filter (\<lambda>t. snd t \<noteq> []) (sort_key fst texts))
      = filter (\<lambda>t. snd t \<noteq> []) (filter (\<lambda>t. fst t = y) (sort_key fst texts))"
    by (simp add: conj_commute)
  also have "\<dots> = filter (\<lambda>t. snd t \<noteq> []) (filter (\<lambda>t. fst t = y) texts)"
    by (simp only: sort_key_stable)
  also have "\<dots> = filter (\<lambda>t. fst t = y) (filter (\<lambda>t. snd t \<noteq> []) texts)"
    by (simp add: conj_commute)
  finally show ?thesis .
qed

text \<open>
  C5. In lines mode, on a successful reply (status not rejected, service code 100) whose
  fragments \<open>items\<close> yield the pairs \<open>texts\<close> of top-edge coordinate and trimmed text in
  detection order, the call returns the texts of a sequence \<open>tagged\<close> that is sorted by
  the coordinate, ascending, and in which the fragments of each coordinate \<open>y\<close> are the
  fragments of \<open>texts\<close> with that coordinate and a non-empty text, in detection order.
\<close>

theorem call_ocr_api_lines_sorted:
  assumes "\<not> raise_for_status st" and "code result = Some 100"
    and "data result = Some (DataItems items)" and "collect_texts L items = Inr texts"
  shows "\<exists>tagged.
           call_ocr_api L (Response st result) False = Inr (Lines (map snd tagged))
         \<and> sorted (map fst tagged)
         \<and> (\<forall>y. filter (\<lambda>t. fst t = y) tagged
                 = filter (\<lambda>t. fst t = y) (filter (\<lambda>t. snd t \<noteq> []) texts))
         \<and> map snd texts = map (stripped_text L) items
         \<and> map y_pos items = map (\<lambda>t. Inr (fst t)) texts"
proof -
  let ?tagged = "filter (\<lambda>t. snd t \<noteq> []) (sort_key fst texts)"
  have "call_ocr_api L (Response st result) False = Inr (Lines (map snd ?tagged))"
    using assms by (simp add: call_ocr_api_def lines_of_data_def sorted_lines_def)
  moreover have "sorted (map fst ?tagged)"
    by (simp add: sorted_filter)
  moreover have "\<forall>y. filter (\<lambda>t. fst t = y) ?tagged
                 = filter (\<lambda>t. fst t = y) (filter (\<lambda>t. snd t \<noteq> []) texts)"
    using sorted_lines_stable by blast
  ultimately show ?thesis
    using collect_texts_Inr [OF assms(4)] by blast
qed

theorem call_ocr_api_lines_sorted_witness:
  "(\<exists>tagged.
      call_ocr_api ascii_library (Response 200 \<lparr>code = Some 100, data = Some (DataItems
         [OcrItem (Some ''b'') (Some [[0, 20], [5, 20]]), OcrItem (Some '' a '') (Some [[0, 10]]),
          OcrItem (Some ''c'') (Some [[3, 10]]), OcrItem (Some ''  '') None])\<rparr>) False
        = Inr (Lines (map snd tagged))
      \<and> sorted (map fst tagged)
      \<and> (\<forall>y. filter (\<lambda>t. fst t = y) tagged
             = filter (\<lambda>t. fst t = y) (filter (\<lambda>t. snd t \<noteq> [])
                 [(20::int, ''b''), (10, ''a''), (10, ''c''), (0, [])]))
      \<and> map snd [(20::int, ''b''), (10, ''a''), (10, ''c''), (0, [])]
          = map (stripped_text ascii_library)
              [OcrItem (Some ''b'') (Some [[0, 20], [5, 20]]), OcrItem (Some '' a '') (Some [[0, 10]]),
               OcrItem (Some ''c'') (Some [[3, 10]]), OcrItem (Some ''  '') None]
      \<and> map y_pos
              [OcrItem (Some ''b'') (Some [[0, 20], [5, 20]]), OcrItem (Some '' a '') (Some [[0, 10]]),
               OcrItem (Some ''c'') (Some [[3, 10]]), OcrItem (Some ''  '') None]
          = map (\<lambda>t. Inr (fst t)) [(20::int, ''b''), (10, ''a''), (10, ''c''), (0, [])])
   \<and> call_ocr_api ascii_library (Response 200 \<lparr>code = Some 100, data = Some (DataItems
         [OcrItem (Some ''b'') (Some [[0, 20], [5, 20]]), OcrItem (Some '' a '') (Some [[0, 10]]),
          OcrItem (Some ''c'') (Some [[3, 10]]), OcrItem (Some ''  '') None])\<rparr>) False
        = Inr (Lines [''a'', ''c'', ''b''])"
proof (rule conjI)
  let ?items = "[OcrItem (Some ''b'') (Some [[0, 20], [5, 20]]), OcrItem (Some '' a '') (Some [[0, 10]]),
          OcrItem (Some ''c'') (Some [[3, 10]]), OcrItem (Some ''  '') None]"
  let ?result = "\<lparr>code = Some 100, data = Some (DataItems ?items)\<rparr>"
  have h1: "\<not> raise_for_status 200"
    by (simp add: raise_for_status_def)
  have h2: "code ?result = Some 100" and h3: "data ?result = Some (DataItems ?items)"
    by simp_all
  have h4: "collect_texts ascii_library ?items = Inr [(20::int, ''b''), (10, ''a''), (10, ''c''), (0, [])]"
    by code_simp
  show "\<exists>tagged.
      call_ocr_api ascii_library (Response 200 ?result) False = Inr (Lines (map snd tagged))
      \<and> sorted (map fst tagged)
      \<and> (\<forall>y. filter (\<lambda>t. fst t = y) tagged
             = filter (\<lambda>t. fst t = y) (filter (\<lambda>t. snd t \<noteq> [])
                 [(20::int, ''b''), (10, ''a''), (10, ''c''), (0, [])]))
      \<and> map snd [(20::int, ''b''), (10, ''a''), (10, ''c''), (0, [])] = map (stripped_text ascii_library) ?items
      \<and> map y_pos ?items = map (\<lambda>t. Inr (fst t)) [(20::int, ''b''), (10, ''a''), (10, ''c''), (0, [])]"
    by (rule call_ocr_api_lines_sorted [OF h1 h2 h3 h4])
  show "call_ocr_api ascii_library (Response 200 ?result) False = Inr (Lines [''a'', ''c'', ''b''])"
    by code_simp
qed

text \<open>
  C6. The claim says that every reply with a status outside 200 to 299 gives the empty
  result. The code rejects a status through \<^verbatim>\<open>raise_for_status\<close>, which raises
  for 400 to 599 only: a reply with status 300 and service code 100 is processed like a
  successful one, and its text is returned.
\<close>

theorem call_ocr_api_non_2xx_counterexample:
  "\<not> status_2xx 300
   \<and> call_ocr_api ascii_library (Response 300 \<lparr>code = Some 100, data = Some (DataText ''X'')\<rparr>) True
       = Inr (Text ''X'')
   \<and> Text ''X'' \<noteq> empty_result True"
  by (simp add: status_2xx_def call_ocr_api_def raise_for_status_def empty_result_def)

text \<open>
  C6, as amended: if the network call fails, or the reply has a client-error or
  server-error status (400 to 599), or the service code is the "no text" code 101 or any
  code other than the success code 100, the call does not raise and returns the empty
  result of its mode: the empty string in text mode, the empty sequence in lines mode.
  A reply with any other status is not rejected: two replies with the same body, neither
  with a status from 400 to 599, are handled alike, so a status such as 300 is handled
  like a status from 200 to 299.
\<close>

theorem call_ocr_api_degrades:
  assumes "outcome = RequestFailed
         \<or> (\<exists>st result. outcome = Response st result
               \<and> (raise_for_status st \<or> code result = Some 101 \<or> code result \<noteq> Some 100))"
  shows "call_ocr_api L outcome return_text = Inr (empty_result return_text)
       \<and> empty_result True = Text [] \<and> empty_result False = Lines []
       \<and> (\<not> raise_for_status status \<and> \<not> raise_for_status status'
            \<longrightarrow> call_ocr_api L (Response status body) return_text
                  = call_ocr_api L (Response status' body) return_text)"
  using assms by (auto simp: call_ocr_api_def empty_result_def)

theorem call_ocr_api_degrades_witness:
  "call_ocr_api ascii_library RequestFailed True = Inr (Text [])
   \<and> call_ocr_api ascii_library RequestFailed False = Inr (Lines [])
   \<and> call_ocr_api ascii_library (Response 503 \<lparr>code = Some 100, data = Some (DataText ''X'')\<rparr>) True = Inr (Text [])
   \<and> call_ocr_api ascii_library (Response 200 \<lparr>code = Some 101, data = None\<rparr>) False = Inr (Lines [])
   \<and> call_ocr_api ascii_library (Response 200 \<lparr>code = Some 902, data = Some (DataText ''failure'')\<rparr>) True = Inr (Text [])
   \<and> call_ocr_api ascii_library (Response 300 \<lparr>code = Some 100, data = Some (DataText ''X'')\<rparr>) True
       = call_ocr_api ascii_library (Response 200 \<lparr>code = Some 100, data = Some (DataText ''X'')\<rparr>) True"
proof -
  have a: "RequestFailed = RequestFailed
         \<or> (\<exists>st result. RequestFailed = Response st result
               \<and> (raise_for_status st \<or> code result = Some 101 \<or> code result \<noteq> Some 100))"
    by simp
  have b: "Response 503 \<lparr>code = Some 100, data = Some (DataText ''X'')\<rparr> = RequestFailed
         \<or> (\<exists>st result. Response 503 \<lparr>code = Some 100, data = Some (DataText ''X'')\<rparr> = Response st result
               \<and> (raise_for_status st \<or> code result = Some 101 \<or> code result \<noteq> Some 100))"
    by (simp add: raise_for_status_def)
  have c: "Response 200 \<lparr>code = Some 101, data = None\<rparr> = RequestFailed
         \<or> (\<exists>st result. Response 200 \<lparr>code = Some 101, data = None\<rparr> = Response st result
               \<and> (raise_for_status st \<or> code result = Some 101 \<or> code result \<noteq> Some 100))"
    by simp
  have d: "Response 200 \<lparr>code = Some 902, data = Some (DataText ''failure'')\<rparr> = RequestFailed
         \<or> (\<exists>st result. Response 200 \<lparr>code = Some 902, data = Some (DataText ''failure'')\<rparr> = Response st result
               \<and> (raise_for_status st \<or> code result = Some 101 \<or> code result \<noteq> Some 100))"
    by simp
  have s: "\<not> raise_for_status 300 \<and> \<not> raise_for_status 200"
    by (simp add: raise_for_status_def)
  have 1: "call_ocr_api ascii_library RequestFailed True = Inr (Text [])"
    using call_ocr_api_degrades [OF a, of ascii_library True] by simp
  have 2: "call_ocr_api ascii_library RequestFailed False = Inr (Lines [])"
    using call_ocr_api_degrades [OF a, of ascii_library False] by simp
  have 3: "call_ocr_api ascii_library (Response 503 \<lparr>code = Some 100, data = Some (DataText ''X'')\<rparr>) True = Inr (Text [])"
    using call_ocr_api_degrades [OF b, of ascii_library True] by simp
  have 4: "call_ocr_api ascii_library (Response 200 \<lparr>code = Some 101, data = None\<rparr>) False = Inr (Lines [])"
    using call_ocr_api_degrades [OF c, of ascii_library False] by simp
  have 5: "call_ocr_api ascii_library (Response 200 \<lparr>code = Some 902, data = Some (DataText ''failure'')\<rparr>) True = Inr (Text [])"
    using call_ocr_api_degrades [OF d, of ascii_library True] by simp
  have 6: "call_ocr_api ascii_library (Response 300 \<lparr>code = Some 100, data = Some (DataText ''X'')\<rparr>) True
       = call_ocr_api ascii_library (Response 200 \<lparr>code = Some 100, data = Some (DataText ''X'')\<rparr>) True"
    using call_ocr_api_degrades [OF a, of ascii_library True 300 200
        "\<lparr>code = Some 100, data = Some (DataText ''X'')\<rparr>"] s
    by blast
  from 1 2 3 4 5 6 show ?thesis
    by (intro conjI)
qed

subsection \<open>Record assembly\<close>

lemma key_of_with_source: "key_of (with_source k s) = k"
  by (cases k) (simp add: key_of_def with_source_def)

lemma fields_with_source:
  "universal_brand_of (with_source (m, c, e, u, b, p) s) = u"
  "brand_code_of (with_source (m, c, e, u, b, p) s) = b"
  "part_number_of (with_source (m, c, e, u, b, p) s) = p"
  by (simp_all add: universal_brand_of_def brand_code_of_def part_number_of_def with_source_def)

text \<open>An assembly state is consistent with a mapping when the keys seen are the keys of
  the records collected and every record carries the universal brand of its brand code.\<close>

lemma add_variant_seen:
  "seen_in_image st = key_of ` set (new_records st) \<Longrightarrow>
   seen_in_image (add_variant f u b st pn) = key_of ` set (new_records (add_variant f u b st pn))"
  by (simp add: add_variant_def Let_def key_of_with_source)

lemma add_variant_warnings: "warnings (add_variant f u b st pn) = warnings st"
  by (simp add: add_variant_def Let_def)

lemma add_variant_mono: "set (new_records st) \<subseteq> set (new_records (add_variant f u b st pn))"
  by (auto simp: add_variant_def Let_def)

lemma add_variant_new:
  "r \<in> set (new_records (add_variant f u b st pn)) \<Longrightarrow>
   r \<in> set (new_records st) \<or> (universal_brand_of r = u \<and> brand_code_of r = b)"
  by (auto simp: add_variant_def Let_def fields_with_source split: if_splits)

lemma add_variant_has:
  assumes "seen_in_image st = key_of ` set (new_records st)"
  shows "\<exists>r \<in> set (new_records (add_variant f u b st pn)).
           brand_code_of r = b \<and> part_number_of r = pn"
proof (cases "(main_brand_code f, convert_code f, english_name f, u, b, pn) \<in> seen_in_image st")
  case True
  with assms obtain r where r: "r \<in> set (new_records st)"
    and k: "key_of r = (main_brand_code f, convert_code f, english_name f, u, b, pn)"
    by auto
  from k have "brand_code_of r = b \<and> part_number_of r = pn"
    by (cases r) (simp add: key_of_def brand_code_of_def part_number_of_def)
  with r True show ?thesis
    by (auto simp: add_variant_def Let_def)
next
  case False
  then show ?thesis
    by (auto simp: add_variant_def Let_def fields_with_source)
qed

lemma variants_seen:
  "seen_in_image st = key_of ` set (new_records st) \<Longrightarrow>
   seen_in_image (foldl (add_variant f u b) st pns)
     = key_of ` set (new_records (foldl (add_variant f u b) st pns))"
  by (induction pns arbitrary: st) (simp_all add: add_variant_seen)

lemma variants_warnings: "warnings (foldl (add_variant f u b) st pns) = warnings st"
  by (induction pns arbitrary: st) (simp_all add: add_variant_warnings)

lemma variants_mono:
  "set (new_records st) \<subseteq> set (new_records (foldl (add_variant f u b) st pns))"
proof (induction pns arbitrary: st)
  case Nil
  then show ?case by simp
next
  case (Cons pn pns)
  have "set (new_records st) \<subseteq> set (new_records (add_variant f u b st pn))"
    by (rule add_variant_mono)
  also have "\<dots> \<subseteq> set (new_records (foldl (add_variant f u b) (add_variant f u b st pn) pns))"
    by (rule Cons.IH)
  finally show ?case by simp
qed

lemma variants_new:
  "r \<in> set (new_records (foldl (add_variant f u b) st pns)) \<Longrightarrow>
   r \<in> set (new_records st) \<or> (universal_brand_of r = u \<and> brand_code_of r = b)"
proof (induction pns arbitrary: st)
  case Nil
  then show ?case by simp
next
  case (Cons pn pns)
  from Cons.prems have "r \<in> set (new_records (foldl (add_variant f u b) (add_variant f u b st pn) pns))"
    by simp
  from Cons.IH [OF this] show ?case
    using add_variant_new by blast
qed

lemma variants_has_first:
  assumes "seen_in_image st = key_of ` set (new_records st)"
  shows "\<exists>r \<in> set (new_records (foldl (add_variant f u b) st (pn # rest))).
           brand_code_of r = b \<and> part_number_of r = pn"
proof -
  from add_variant_has [OF assms] obtain r
    where "r \<in> set (new_records (add_variant f u b st pn))"
      and "brand_code_of r = b \<and> part_number_of r = pn"
    by blast
  moreover have "set (new_records (add_variant f u b st pn))
      \<subseteq> set (new_records (foldl (add_variant f u b) st (pn # rest)))"
    using variants_mono [of "add_variant f u b st pn" f u b rest] by simp
  ultimately show ?thesis by blast
qed

lemma add_pair_seen:
  "seen_in_image st = key_of ` set (new_records st) \<Longrightarrow>
   seen_in_image (add_pair mp f st pair) = key_of ` set (new_records (add_pair mp f st pair))"
  by (cases pair) (simp add: add_pair_def variants_seen split: option.splits)

lemma add_pair_mono: "set (new_records st) \<subseteq> set (new_records (add_pair mp f st pair))"
proof (cases pair)
  case (Pair b pn)
  show ?thesis
  proof (cases "mp b")
    case None
    with Pair show ?thesis
      using variants_mono [of "st\<lparr>warnings := warnings st @ [b]\<rparr>" f b b "pns_to_add pn"]
      by (simp add: add_pair_def)
  next
    case (Some u)
    with Pair show ?thesis
      using variants_mono [of st f u b "pns_to_add pn"] by (simp add: add_pair_def)
  qed
qed

lemma add_pair_warnings_mono: "set (warnings st) \<subseteq> set (warnings (add_pair mp f st pair))"
  by (cases pair) (auto simp: add_pair_def variants_warnings split: option.splits)

lemma add_pair_warns:
  "mp b = None \<Longrightarrow> b \<in> set (warnings (add_pair mp f st (b, pn)))"
  by (simp add: add_pair_def variants_warnings)

lemma add_pair_new:
  assumes "r \<in> set (new_records (add_pair mp f st pair))"
  shows "r \<in> set (new_records st)
       \<or> universal_brand_of r = (case mp (brand_code_of r) of None \<Rightarrow> brand_code_of r | Some u \<Rightarrow> u)"
proof (cases pair)
  case (Pair b pn)
  show ?thesis
  proof (cases "mp b")
    case None
    with Pair assms
    have "r \<in> set (new_records (foldl (add_variant f b b) (st\<lparr>warnings := warnings st @ [b]\<rparr>) (pns_to_add pn)))"
      by (simp add: add_pair_def)
    from variants_new [OF this] None show ?thesis
      by auto
  next
    case (Some u)
    with Pair assms
    have "r \<in> set (new_records (foldl (add_variant f u b) st (pns_to_add pn)))"
      by (simp add: add_pair_def)
    from variants_new [OF this] Some show ?thesis
      by auto
  qed
qed

lemma add_pair_has:
  assumes "seen_in_image st = key_of ` set (new_records st)"
  shows "\<exists>r \<in> set (new_records (add_pair mp f st (b, pn))).
           brand_code_of r = b \<and> part_number_of r = pn"
proof -
  obtain rest where p: "pns_to_add pn = pn # rest"
    using pns_to_add_first by blast
  show ?thesis
  proof (cases "mp b")
    case None
    have "seen_in_image (st\<lparr>warnings := warnings st @ [b]\<rparr>)
        = key_of ` set (new_records (st\<lparr>warnings := warnings st @ [b]\<rparr>))"
      using assms by simp
    from variants_has_first [OF this, of f b b pn rest] None p show ?thesis
      by (simp add: add_pair_def)
  next
    case (Some u)
    from variants_has_first [OF assms, of f u b pn rest] Some p show ?thesis
      by (simp add: add_pair_def)
  qed
qed

lemma assemble_snoc:
  "assemble mp f (pairs @ [pair]) = add_pair mp f (assemble mp f pairs) pair"
  by (simp add: assemble_def)

lemma assemble_seen:
  "seen_in_image (assemble mp f pairs) = key_of ` set (new_records (assemble mp f pairs))"
proof (induction pairs rule: rev_induct)
  case Nil
  then show ?case by (simp add: assemble_def)
next
  case (snoc pair pairs)
  then show ?case by (simp add: assemble_snoc add_pair_seen)
qed

lemma assemble_universal:
  "r \<in> set (new_records (assemble mp f pairs)) \<Longrightarrow>
   universal_brand_of r = (case mp (brand_code_of r) of None \<Rightarrow> brand_code_of r | Some u \<Rightarrow> u)"
proof (induction pairs rule: rev_induct)
  case Nil
  then show ?case by (simp add: assemble_def)
next
  case (snoc pair pairs)
  from snoc.prems have "r \<in> set (new_records (add_pair mp f (assemble mp f pairs) pair))"
    by (simp add: assemble_snoc)
  from add_pair_new [OF this] snoc.IH show ?case
    by blast
qed

lemma assemble_keeps:
  "(b, pn) \<in> set pairs \<Longrightarrow>
   (\<exists>r \<in> set (new_records (assemble mp f pairs)). brand_code_of r = b \<and> part_number_of r = pn)
   \<and> (mp b = None \<longrightarrow> b \<in> set (warnings (assemble mp f pairs)))"
proof (induction pairs rule: rev_induct)
  case Nil
  then show ?case by simp
next
  case (snoc pair pairs)
  show ?case
  proof (cases "pair = (b, pn)")
    case True
    have "\<exists>r \<in> set (new_records (add_pair mp f (assemble mp f pairs) (b, pn))).
            brand_code_of r = b \<and> part_number_of r = pn"
      by (rule add_pair_has [OF assemble_seen])
    moreover have "mp b = None \<longrightarrow> b \<in> set (warnings (add_pair mp f (assemble mp f pairs) (b, pn)))"
      by (simp add: add_pair_warns)
    ultimately show ?thesis
      using True by (simp add: assemble_snoc)
  next
    case False
    with snoc.prems have "(b, pn) \<in> set pairs"
      by simp
    from snoc.IH [OF this] show ?thesis
      using add_pair_mono [of "assemble mp f pairs" mp f pair]
        add_pair_warnings_mono [of "assemble mp f pairs" mp f pair]
      by (auto simp: assemble_snoc)
  qed
qed

text \<open>
  C7. For every record that \<^verbatim>\<open>process_image\<close> assembles, the universal brand is
  the value of the brand mapping at the record's brand code when the key is present, and
  the brand code itself when it is absent; every extracted pair has a record with its
  brand code and part number, and a pair without a mapping has its warning logged.
\<close>

theorem process_image_universal_brand:
  "(\<forall>r \<in> set (new_records (process_image L brand_mapping file_name ocr)).
      universal_brand_of r
        = (case brand_mapping (brand_code_of r) of
             None \<Rightarrow> brand_code_of r
           | Some universal_brand \<Rightarrow> universal_brand))
   \<and> (\<forall>(brand_code, part_number)
          \<in> set (extract_part_numbers L (brand_code_lines ocr) (brand_part_text ocr)).
        (\<exists>r \<in> set (new_records (process_image L brand_mapping file_name ocr)).
           brand_code_of r = brand_code \<and> part_number_of r = part_number)
        \<and> (brand_mapping brand_code = None \<longrightarrow>
             brand_code \<in> set (warnings (process_image L brand_mapping file_name ocr))))"
  unfolding process_image_def
  using assemble_universal assemble_keeps by blast

theorem process_image_universal_brand_witness:
  "(''MB1'', [], ''FILTER'', ''ACME'', ''ACME'', ''AB1234'', ''img.png'')
     \<in> set (new_records (process_image ascii_library [''ZED'' \<mapsto> ''ZENITH''] ''img.png''
          \<lparr>main_brand_lines = ['' mb1 ''], convert_lines = [], english_lines = [''Filter''],
           brand_code_lines = [''ZED'', ''acme''],
           brand_part_text = ''ZED 0099-A ACME AB1234''\<rparr>))
   \<and> (''ZED'', ''0099-A'')
     \<in> set (extract_part_numbers ascii_library [''ZED'', ''acme''] ''ZED 0099-A ACME AB1234'')
   \<and> (''ACME'', ''AB1234'')
     \<in> set (extract_part_numbers ascii_library [''ZED'', ''acme''] ''ZED 0099-A ACME AB1234'')
   \<and> [''ZED'' \<mapsto> ''ZENITH''] ''ACME'' = None
   \<and> universal_brand_of (''MB1'', [], ''FILTER'', ''ACME'', ''ACME'', ''AB1234'', ''img.png'')
       = ''ACME''
   \<and> (\<exists>r \<in> set (new_records (process_image ascii_library [''ZED'' \<mapsto> ''ZENITH''] ''img.png''
          \<lparr>main_brand_lines = ['' mb1 ''], convert_lines = [], english_lines = [''Filter''],
           brand_code_lines = [''ZED'', ''acme''],
           brand_part_text = ''ZED 0099-A ACME AB1234''\<rparr>)).
         brand_code_of r = ''ZED'' \<and> part_number_of r = ''0099-A''
         \<and> universal_brand_of r = ''ZENITH'')
   \<and> ''ACME'' \<in> set (warnings (process_image ascii_library [''ZED'' \<mapsto> ''ZENITH''] ''img.png''
          \<lparr>main_brand_lines = ['' mb1 ''], convert_lines = [], english_lines = [''Filter''],
           brand_code_lines = [''ZED'', ''acme''],
           brand_part_text = ''ZED 0099-A ACME AB1234''\<rparr>))"
proof -
  let ?M = "[''ZED'' \<mapsto> ''ZENITH'']"
  let ?O = "\<lparr>main_brand_lines = ['' mb1 ''], convert_lines = [], english_lines = [''Filter''],
           brand_code_lines = [''ZED'', ''acme''],
           brand_part_text = ''ZED 0099-A ACME AB1234''\<rparr>"
  let ?A = "process_image ascii_library ?M ''img.png'' ?O"
  let ?r = "(''MB1'', [], ''FILTER'', ''ACME'', ''ACME'', ''AB1234'', ''img.png'')"
  have pairs: "extract_part_numbers ascii_library [''ZED'', ''acme''] ''ZED 0099-A ACME AB1234''
      = [(''ZED'', ''0099-A''), (''ACME'', ''AB1234'')]"
    by code_simp
  have r: "?r \<in> set (new_records ?A)"
    by code_simp
  have m: "?M ''ACME'' = None" and z: "?M ''ZED'' = Some ''ZENITH''"
    by simp_all
  note T = process_image_universal_brand [of ascii_library ?M "''img.png''" ?O]
  from T r have "universal_brand_of ?r
      = (case ?M (brand_code_of ?r) of None \<Rightarrow> brand_code_of ?r | Some u \<Rightarrow> u)"
    by blast
  then have u: "universal_brand_of ?r = ''ACME''"
    by (simp add: brand_code_of_def)
  from T pairs have "\<exists>r \<in> set (new_records ?A).
      brand_code_of r = ''ZED'' \<and> part_number_of r = ''0099-A''"
    by simp
  then obtain r' where r': "r' \<in> set (new_records ?A)"
    and b': "brand_code_of r' = ''ZED''" and p': "part_number_of r' = ''0099-A''"
    by blast
  from T r' have "universal_brand_of r'
      = (case ?M (brand_code_of r') of None \<Rightarrow> brand_code_of r' | Some u \<Rightarrow> u)"
    by blast
  with b' z have "universal_brand_of r' = ''ZENITH''"
    by simp
  with r' b' p' have e: "\<exists>r \<in> set (new_records ?A).
      brand_code_of r = ''ZED'' \<and> part_number_of r = ''0099-A'' \<and> universal_brand_of r = ''ZENITH''"
    by blast
  from T pairs m have w: "''ACME'' \<in> set (warnings ?A)"
    by simp
  from pairs r m u e w show ?thesis
    by simp
qed

subsection \<open>The output table\<close>

lemma header_row_nonempty: "header_row \<noteq> []"
  by (simp add: header_row_def)

lemma length_row_of: "length (row_of r) = 7"
  by (cases r) (simp add: row_of_def)

lemma take_6_row_of:
  "take 6 (row_of r) = take 6 (row_of r') \<longleftrightarrow> key_of r = key_of r'"
  by (cases r; cases r') (simp add: row_of_def key_of_def)

lemma length_dedup_loop: "length (dedup_loop rows seen) \<le> length rows"
proof (induction rows arbitrary: seen)
  case Nil
  then show ?case by simp
next
  case (Cons row rows)
  have "length (dedup_loop rows seen) \<le> length rows"
    and "length (dedup_loop rows (insert (take 6 row) seen)) \<le> length rows"
    by (rule Cons.IH)+
  then show ?case
    by (simp add: Let_def)
qed

lemma dedup_loop_same_length:
  "length rows \<le> length (dedup_loop rows seen) \<Longrightarrow> dedup_loop rows seen = rows"
proof (induction rows arbitrary: seen)
  case Nil
  then show ?case by simp
next
  case (Cons row rows)
  show ?case
  proof (cases "6 \<le> length row \<and> take 6 row \<notin> seen")
    case True
    with Cons.prems have "length rows \<le> length (dedup_loop rows (insert (take 6 row) seen))"
      by (simp add: Let_def)
    from Cons.IH [OF this] True show ?thesis
      by (simp add: Let_def)
  next
    case False
    then have "dedup_loop (row # rows) seen = dedup_loop rows seen"
      by (auto simp: Let_def)
    with Cons.prems have "Suc (length rows) \<le> length (dedup_loop rows seen)"
      by simp
    with length_dedup_loop [of rows seen] show ?thesis
      by simp
  qed
qed



lemma dedup_loop_all_seen:
  "\<forall>row \<in> set rows. 6 \<le> length row \<longrightarrow> take 6 row \<in> seen \<Longrightarrow> dedup_loop rows seen = []"
  by (induction rows arbitrary: seen) (simp_all add: Let_def)

lemma dedup_loop_append:
  "dedup_loop (xs @ ys) seen
     = dedup_loop xs seen
       @ dedup_loop ys (seen \<union> take 6 ` {row \<in> set xs. 6 \<le> length row})"
proof (induction xs arbitrary: seen)
  case Nil
  then show ?case by simp
next
  case (Cons x xs)
  show ?case
  proof (cases "6 \<le> length x")
    case True
    have s: "insert (take 6 x) seen \<union> take 6 ` {row \<in> set xs. 6 \<le> length row}
        = seen \<union> take 6 ` {row \<in> set (x # xs). 6 \<le> length row}"
      using True by auto
    have t: "take 6 x \<in> seen \<Longrightarrow>
        seen \<union> take 6 ` {row \<in> set xs. 6 \<le> length row}
        = seen \<union> take 6 ` {row \<in> set (x # xs). 6 \<le> length row}"
      using True by auto
    show ?thesis
    proof (cases "take 6 x \<in> seen")
      case True
      with \<open>6 \<le> length x\<close> Cons.IH [of seen] t show ?thesis
        by (simp add: Let_def)
    next
      case False
      with \<open>6 \<le> length x\<close> Cons.IH [of "insert (take 6 x) seen"] s show ?thesis
        by (simp add: Let_def)
    qed
  next
    case False
    then have "{row \<in> set (x # xs). 6 \<le> length row} = {row \<in> set xs. 6 \<le> length row}"
      by auto
    with False Cons.IH [of seen] show ?thesis
      by (simp add: Let_def)
  qed
qed

lemma dedup_loop_distinct:
  "distinct (map key_of records) \<Longrightarrow>
   \<forall>r \<in> set records. take 6 (row_of r) \<notin> seen \<Longrightarrow>
   dedup_loop (map row_of records) seen = map row_of records"
proof (induction records arbitrary: seen)
  case Nil
  then show ?case by simp
next
  case (Cons r records)
  have "\<forall>r' \<in> set records. take 6 (row_of r') \<noteq> take 6 (row_of r)"
  proof
    fix r'
    assume "r' \<in> set records"
    then have "key_of r' \<in> key_of ` set records"
      by (rule imageI)
    with Cons.prems(1) have "key_of r' \<noteq> key_of r"
      by auto
    then show "take 6 (row_of r') \<noteq> take 6 (row_of r)"
      by (simp add: take_6_row_of)
  qed
  with Cons.prems(2) have "\<forall>r' \<in> set records. take 6 (row_of r') \<notin> insert (take 6 (row_of r)) seen"
    by simp
  moreover from Cons.prems(1) have "distinct (map key_of records)"
    by simp
  ultimately have "dedup_loop (map row_of records) (insert (take 6 (row_of r)) seen)
      = map row_of records"
    by (rule Cons.IH [rotated])
  with Cons.prems(2) show ?case
    by (simp add: Let_def length_row_of)
qed

lemma dedup_loop_appended_twice:
  assumes "distinct (map key_of records)"
  shows "dedup_loop (map row_of records @ map row_of records) {} = map row_of records"
proof -
  have "dedup_loop (map row_of records) {} = map row_of records"
    using assms by (simp add: dedup_loop_distinct)
  moreover have "dedup_loop (map row_of records)
      ({} \<union> take 6 ` {row \<in> set (map row_of records). 6 \<le> length row}) = []"
    by (rule dedup_loop_all_seen) auto
  ultimately show ?thesis
    by (simp only: dedup_loop_append append_Nil2)
qed

lemma deduplicate_with_header:
  assumes "header \<noteq> []"
  shows "deduplicate_csv (Some (header # rest)) = Some (header # dedup_loop rest {})"
proof (cases rest)
  case Nil
  with assms show ?thesis
    by (simp add: deduplicate_csv_def read_rows_def)
next
  case (Cons row rows)
  show ?thesis
  proof (cases "length rest \<le> length (dedup_loop rest {})")
    case True
    then have "dedup_loop rest {} = rest"
      by (rule dedup_loop_same_length)
    with assms Cons True show ?thesis
      by (simp add: deduplicate_csv_def read_rows_def Let_def)
  next
    case False
    with assms Cons show ?thesis
      by (simp add: deduplicate_csv_def read_rows_def Let_def)
  qed
qed

text \<open>
  C3. Starting from a table that does not exist, appending records with pairwise
  distinct six-field keys, appending the same records again and compacting leaves
  exactly the header row followed by the records, in their order.
\<close>

theorem append_twice_then_compact:
  assumes "distinct (map key_of records)"
  shows "deduplicate_csv (save_to_csv (save_to_csv None records) records)
           = Some (header_row # map row_of records)"
proof -
  have "save_to_csv (save_to_csv None records) records
      = Some (header_row # (map row_of records @ map row_of records))"
    by (simp add: save_to_csv_def)
  then show ?thesis
    using deduplicate_with_header [OF header_row_nonempty] dedup_loop_appended_twice [OF assms]
    by simp
qed

theorem append_twice_then_compact_witness:
  "distinct (map key_of
       [(''M'', ''C'', ''E'', ''ZENITH'', ''ZED'', ''0099-A'', ''a.png''),
        (''M'', ''C'', ''E'', ''ZENITH'', ''ZED'', ''99A'', ''a.png'')])
   \<and> deduplicate_csv (save_to_csv (save_to_csv None
       [(''M'', ''C'', ''E'', ''ZENITH'', ''ZED'', ''0099-A'', ''a.png''),
        (''M'', ''C'', ''E'', ''ZENITH'', ''ZED'', ''99A'', ''a.png'')])
       [(''M'', ''C'', ''E'', ''ZENITH'', ''ZED'', ''0099-A'', ''a.png''),
        (''M'', ''C'', ''E'', ''ZENITH'', ''ZED'', ''99A'', ''a.png'')])
     = Some [header_row,
             [''M'', ''C'', ''E'', ''ZENITH'', ''ZED'', ''0099-A'', ''a.png''],
             [''M'', ''C'', ''E'', ''ZENITH'', ''ZED'', ''99A'', ''a.png'']]"
proof -
  have h: "distinct (map key_of
       [(''M'', ''C'', ''E'', ''ZENITH'', ''ZED'', ''0099-A'', ''a.png''),
        (''M'', ''C'', ''E'', ''ZENITH'', ''ZED'', ''99A'', ''a.png'')])"
    by (simp add: key_of_def)
  from h append_twice_then_compact [OF h] show ?thesis
    by (simp add: row_of_def)
qed







end
